theory Spec2Isabelle
  imports Complex_Main
begin

section \<open>The sliding-window rate limiter of \<^verbatim>\<open>app/auth.py\<close>\<close>

text \<open>
  The development embeds \<^verbatim>\<open>RateLimiterMiddleware\<close> (its constructor and its
  \<^verbatim>\<open>dispatch\<close> method) and the place where \<^verbatim>\<open>create_app\<close> installs it.

  Readings of \<^verbatim>\<open>time.monotonic()\<close> and the duration \<^verbatim>\<open>window_seconds\<close> are
  Python floats, that is IEEE 754 binary64 values, and \<^verbatim>\<open>current_time - oldest\<close> is
  the binary64 subtraction: the exact difference rounded to the nearest binary64 value, ties
  to even. \<^verbatim>\<open>max_requests\<close> is a Python integer and is modelled as \<open>int\<close>. The deque
  \<^verbatim>\<open>_request_times\<close> is a list whose head is the left end of the deque.
\<close>

subsection \<open>Binary64 values and their subtraction\<close>

text \<open>\<open>pow2 k\<close> is \<open>2\<close> to the power \<open>k\<close>, for any integer \<open>k\<close>.\<close>

definition pow2 :: "int \<Rightarrow> real" where
  "pow2 k = (if 0 \<le> k then 2 ^ nat k else inverse (2 ^ nat (- k)))"

text \<open>Rounding to the nearest integer, a tie going to the even one.\<close>

definition round_half_even :: "real \<Rightarrow> int" where
  "round_half_even y =
     (let f = \<lfloor>y\<rfloor>; r = y - of_int f
      in if r < 1/2 then f else if r > 1/2 then f + 1 else if even f then f else f + 1)"

text \<open>
  The exponent of the binade of \<open>x\<close>: the \<open>e\<close> with \<open>pow2 e \<le> \<bar>x\<bar> < pow2 (e + 1)\<close>, kept within the
  exponent range of binary64 (\<open>-1022\<close> for zero and the subnormal numbers, \<open>1023\<close> at most).
\<close>

definition binade :: "real \<Rightarrow> int" where
  "binade x = (if x = 0 then - 1022 else min 1023 (max (- 1022) \<lfloor>log 2 \<bar>x\<bar>\<rfloor>))"

text \<open>
  Rounding a real number to binary64: to a multiple of the spacing \<open>pow2 (b - 52)\<close> of the
  binary64 values in the binade \<open>b\<close> of \<open>x\<close> (53 significant bits), the nearest one, ties to
  even. Where IEEE 754 overflows to an infinity the result has magnitude \<open>2 ^ 1024\<close> or
  more, which is beyond every binary64 value, as the infinity is.
\<close>

definition round64 :: "real \<Rightarrow> real" where
  "round64 x =
     pow2 (binade x - 52) * of_int (round_half_even (x / pow2 (binade x - 52)))"

text \<open>
  The finite binary64 values: the real numbers that rounding leaves alone, within the
  range. \<open>val d\<close> is the real number that \<open>d\<close> denotes. (\<^verbatim>\<open>time.monotonic()\<close> returns a
  finite float, and \<^verbatim>\<open>create_app\<close> passes the finite \<^verbatim>\<open>1.0\<close> for the window.)
\<close>

typedef double = "{x :: real. round64 x = x \<and> \<bar>x\<bar> < 2 ^ 1024}"
  morphisms val Abs_double
  by (rule exI [of _ 0]) (simp add: round64_def round_half_even_def)

text \<open>The float that Python reads a decimal literal \<open>r\<close> as: the nearest binary64 value.\<close>

definition float_of :: "real \<Rightarrow> double" where
  "float_of r = Abs_double (round64 r)"

text \<open>
  \<^verbatim>\<open>a - b\<close> on floats. The result is given by its value, so that an overflowed
  difference (magnitude \<open>2 ^ 1024\<close> or more) compares with a float as the infinity does.
\<close>

definition float_sub :: "double \<Rightarrow> double \<Rightarrow> real" where
  "float_sub a b = round64 (val a - val b)"

subsection \<open>Data\<close>

datatype error =
    IndexError
  | HTTPException int string  \<comment> \<open>\<^verbatim>\<open>status_code\<close>, \<^verbatim>\<open>detail\<close>\<close>

type_synonym deque = "double list"

record limiter =
  max_requests :: int
  window_seconds :: double
  request_times :: deque

text \<open>\<^verbatim>\<open>RateLimiterMiddleware.__init__\<close>: the two settings are stored, the deque is empty.\<close>

definition init :: "int \<Rightarrow> double \<Rightarrow> limiter" where
  "init m w = \<lparr>max_requests = m, window_seconds = w, request_times = []\<rparr>"

text \<open>\<^verbatim>\<open>create_app\<close>: \<^verbatim>\<open>add_middleware(auth.RateLimiterMiddleware, max_requests=10, window_seconds=1.0)\<close>.\<close>

definition create_app_limiter :: limiter where
  "create_app_limiter = init 10 (float_of 1.0)"

subsection \<open>Deque operations\<close>

text \<open>\<^verbatim>\<open>d[0]\<close> and \<^verbatim>\<open>d.popleft()\<close> raise \<^verbatim>\<open>IndexError\<close> on an empty deque.\<close>

definition deque_front :: "deque \<Rightarrow> error + double" where
  "deque_front q = (case q of [] \<Rightarrow> Inl IndexError | e # _ \<Rightarrow> Inr e)"

definition popleft :: "deque \<Rightarrow> error + deque" where
  "popleft q = (case q of [] \<Rightarrow> Inl IndexError | _ # es \<Rightarrow> Inr es)"

subsection \<open>The purge loop\<close>

text \<open>
  \<^verbatim>\<open>while self._request_times and current_time - self._request_times[0] > self.window_seconds:
      self._request_times.popleft()\<close>

  The result is what the loop raised (or \<open>Inr ()\<close> when it ran to its end) together with
  the deque it left behind. \<^verbatim>\<open>and\<close> short-circuits: the front is read only when the deque
  is non-empty.
\<close>

function purge_loop :: "double \<Rightarrow> double \<Rightarrow> deque \<Rightarrow> (error + unit) \<times> deque" where
  "purge_loop w current_time q =
     (if q = [] then (Inr (), q)
      else case deque_front q of
             Inl e \<Rightarrow> (Inl e, q)
           | Inr oldest \<Rightarrow>
               if float_sub current_time oldest > val w
               then (case popleft q of
                       Inl e \<Rightarrow> (Inl e, q)
                     | Inr q' \<Rightarrow> purge_loop w current_time q')
               else (Inr (), q))"
  by pat_completeness auto
termination
  by (relation "measure (\<lambda>(w, current_time, q). length q)") (auto simp: popleft_def split: list.splits)

text \<open>The number of \<^verbatim>\<open>popleft\<close> calls the loop makes, by the same recursion.\<close>

function purge_pops :: "double \<Rightarrow> double \<Rightarrow> deque \<Rightarrow> nat" where
  "purge_pops w current_time q =
     (if q = [] then 0
      else case deque_front q of
             Inl e \<Rightarrow> 0
           | Inr oldest \<Rightarrow>
               if float_sub current_time oldest > val w
               then (case popleft q of
                       Inl e \<Rightarrow> 1
                     | Inr q' \<Rightarrow> 1 + purge_pops w current_time q')
               else 0)"
  by pat_completeness auto
termination
  by (relation "measure (\<lambda>(w, current_time, q). length q)") (auto simp: popleft_def split: list.splits)

declare purge_loop.simps [simp del] purge_pops.simps [simp del]

subsection \<open>\<^verbatim>\<open>dispatch\<close>\<close>

text \<open>
  \<^verbatim>\<open>
  async def dispatch(self, request, call_next):
      current_time = time.monotonic()
      while ...: self._request_times.popleft()
      if len(self._request_times) >= self.max_requests:
          raise HTTPException(status_code=429, detail="Rate limit exceeded")
      self._request_times.append(current_time)
      return await call_next(request)
  \<close>

  \<open>current_time\<close> is the clock reading. \<open>call_next\<close> is the rest of the application: it
  takes the request and the state of everything outside the limiter and returns a response
  and that state updated. The result of \<open>dispatch\<close> is the exception raised or the
  response returned, the limiter after the call, and the outside state after the call. An
  exception leaves the mutations made before it in place.
\<close>

definition dispatch ::
  "limiter \<Rightarrow> double \<Rightarrow> 'req \<Rightarrow> ('req \<Rightarrow> 'world \<Rightarrow> 'resp \<times> 'world) \<Rightarrow> 'world
     \<Rightarrow> (error + 'resp) \<times> limiter \<times> 'world" where
  "dispatch self current_time request call_next world =
     (case purge_loop (window_seconds self) current_time (request_times self) of
        (Inl e, q) \<Rightarrow> (Inl e, self\<lparr>request_times := q\<rparr>, world)
      | (Inr _, q) \<Rightarrow>
          if int (length q) \<ge> max_requests self
          then (Inl (HTTPException 429 ''Rate limit exceeded''), self\<lparr>request_times := q\<rparr>, world)
          else (case call_next request world of
                  (response, world') \<Rightarrow>
                    (Inr response, self\<lparr>request_times := q @ [current_time]\<rparr>, world')))"

subsection \<open>The admission decision\<close>

text \<open>
  The admission decision of a call of \<open>dispatch\<close> is what is left when the rest of the
  application does nothing: \<open>dispatch\<close> with a handler that returns at once.
\<close>

abbreviation ADMITTED :: "error + unit" where
  "ADMITTED \<equiv> Inr ()"

abbreviation REJECTED :: "error + unit" where
  "REJECTED \<equiv> Inl (HTTPException 429 ''Rate limit exceeded'')"

definition admit :: "double \<Rightarrow> limiter \<Rightarrow> (error + unit) \<times> limiter" where
  "admit now self =
     (case dispatch self now () (\<lambda>_ world. ((), world)) () of
        (r, self', _) \<Rightarrow> (r, self'))"

text \<open>A sequence of calls, one after the other, on the same limiter.\<close>

fun admit_all :: "limiter \<Rightarrow> double list \<Rightarrow> (error + unit) list \<times> limiter" where
  "admit_all self [] = ([], self)"
| "admit_all self (t # ts) =
     (case admit t self of
        (r, self') \<Rightarrow> (case admit_all self' ts of (rs, self'') \<Rightarrow> (r # rs, self'')))"

text \<open>The timestamps of the calls that were admitted, in the order of the calls.\<close>

definition admitted_times :: "(error + unit) list \<Rightarrow> double list \<Rightarrow> double list" where
  "admitted_times rs ts = map snd (filter (\<lambda>(r, t). r = ADMITTED) (zip rs ts))"

subsection \<open>The specification's algorithm\<close>

text \<open>
  The three steps as the specification words them: purge the expired entries from the
  front, reject when the remaining log is full, otherwise append. The subtraction is the
  one of the floats.
\<close>

definition admit_spec ::
  "int \<Rightarrow> double \<Rightarrow> double \<Rightarrow> double list \<Rightarrow> (error + unit) \<times> double list" where
  "admit_spec m w now entries =
     (let remaining = dropWhile (\<lambda>oldest_entry. float_sub now oldest_entry > val w) entries
      in if int (length remaining) \<ge> m then (REJECTED, remaining)
         else (ADMITTED, remaining @ [now]))"

section \<open>Properties\<close>

subsection \<open>Rounding\<close>

lemma pow2_powr: "pow2 k = 2 powr (of_int k)"
  by (simp add: pow2_def powr_real_of_int)

lemma pow2_pos [simp]: "0 < pow2 k"
  by (simp add: pow2_powr)

lemma pow2_nonneg [simp]: "0 \<le> pow2 k"
  using pow2_pos [of k] by linarith

lemma pow2_add: "pow2 (j + k) = pow2 j * pow2 k"
  by (simp add: pow2_powr powr_add)

lemma pow2_mono: "j \<le> k \<Longrightarrow> pow2 j \<le> pow2 k"
  by (simp add: pow2_powr)

lemma pow2_nat: "pow2 (int n) = 2 ^ n"
  by (simp add: pow2_def)

lemma rhe_of_int [simp]: "round_half_even (of_int n) = n"
  by (simp add: round_half_even_def)

lemma rhe_mono: "x \<le> y \<Longrightarrow> round_half_even x \<le> round_half_even y"
proof -
  assume le: "x \<le> y"
  have fx: "\<lfloor>x\<rfloor> \<le> round_half_even x" "round_half_even x \<le> \<lfloor>x\<rfloor> + 1"
    by (simp_all add: round_half_even_def Let_def)
  have fy: "\<lfloor>y\<rfloor> \<le> round_half_even y" "round_half_even y \<le> \<lfloor>y\<rfloor> + 1"
    by (simp_all add: round_half_even_def Let_def)
  from le have "\<lfloor>x\<rfloor> \<le> \<lfloor>y\<rfloor>" by (rule floor_mono)
  then consider "\<lfloor>x\<rfloor> < \<lfloor>y\<rfloor>" | "\<lfloor>x\<rfloor> = \<lfloor>y\<rfloor>" by linarith
  then show ?thesis
  proof cases
    case 1
    with fx fy show ?thesis by linarith
  next
    case 2
    with le show ?thesis
      by (auto simp: round_half_even_def Let_def)
  qed
qed

lemma floor_log2_bounds:
  assumes "x \<noteq> 0"
  shows "pow2 \<lfloor>log 2 \<bar>x\<bar>\<rfloor> \<le> \<bar>x\<bar>" and "\<bar>x\<bar> < pow2 (\<lfloor>log 2 \<bar>x\<bar>\<rfloor> + 1)"
proof -
  from assms have p: "0 < \<bar>x\<bar>" by simp
  have "\<lfloor>log 2 \<bar>x\<bar>\<rfloor> = \<lfloor>log 2 \<bar>x\<bar>\<rfloor>" ..
  with floor_log_eq_powr_iff [OF p, of 2 "\<lfloor>log 2 \<bar>x\<bar>\<rfloor>"]
  have "2 powr (of_int \<lfloor>log 2 \<bar>x\<bar>\<rfloor>) \<le> \<bar>x\<bar> \<and> \<bar>x\<bar> < 2 powr (of_int (\<lfloor>log 2 \<bar>x\<bar>\<rfloor> + 1))"
    by simp
  then show "pow2 \<lfloor>log 2 \<bar>x\<bar>\<rfloor> \<le> \<bar>x\<bar>" and "\<bar>x\<bar> < pow2 (\<lfloor>log 2 \<bar>x\<bar>\<rfloor> + 1)"
    by (simp_all add: pow2_powr)
qed

lemma binade_range: "- 1022 \<le> binade x" "binade x \<le> 1023"
  by (simp_all add: binade_def)

lemma binade_lower:
  assumes "x \<noteq> 0" "- 1022 < binade x"
  shows "pow2 (binade x) \<le> \<bar>x\<bar>"
proof -
  from assms have "binade x \<le> \<lfloor>log 2 \<bar>x\<bar>\<rfloor>"
    by (simp add: binade_def min_def max_def split: if_splits)
  then have "pow2 (binade x) \<le> pow2 \<lfloor>log 2 \<bar>x\<bar>\<rfloor>" by (rule pow2_mono)
  with floor_log2_bounds(1) [OF assms(1)] show ?thesis by linarith
qed

lemma binade_upper:
  assumes "binade x < 1023"
  shows "\<bar>x\<bar> < pow2 (binade x + 1)"
proof (cases "x = 0")
  case True
  then show ?thesis by simp
next
  case False
  with assms have "\<lfloor>log 2 \<bar>x\<bar>\<rfloor> \<le> binade x"
    by (simp add: binade_def min_def max_def split: if_splits)
  then have "pow2 (\<lfloor>log 2 \<bar>x\<bar>\<rfloor> + 1) \<le> pow2 (binade x + 1)" by (intro pow2_mono) simp
  with floor_log2_bounds(2) [OF False] show ?thesis by linarith
qed

text \<open>The binade of a number is found from two bounds; this is how \<open>round64\<close> is evaluated.\<close>

lemma binade_eqI:
  assumes "- 1022 \<le> b" "b \<le> 1023"
    and "- 1022 < b \<longrightarrow> pow2 b \<le> \<bar>x\<bar>"
    and "b < 1023 \<longrightarrow> \<bar>x\<bar> < pow2 (b + 1)"
  shows "binade x = b"
proof (rule ccontr)
  assume ne: "binade x \<noteq> b"
  show False
  proof (cases "binade x < b")
    case True
    then have u: "\<bar>x\<bar> < pow2 (binade x + 1)" using assms(2) by (intro binade_upper) simp
    from True binade_range(1) [of x] assms(3) have "pow2 b \<le> \<bar>x\<bar>" by simp
    moreover from True have "pow2 (binade x + 1) \<le> pow2 b" by (intro pow2_mono) simp
    ultimately show False using u by linarith
  next
    case False
    with ne have gt: "b < binade x" by simp
    with binade_range(2) [of x] assms(4) have u: "\<bar>x\<bar> < pow2 (b + 1)" by simp
    have x0: "x \<noteq> 0"
    proof
      assume "x = 0"
      then have "binade x = - 1022" by (simp add: binade_def)
      with gt assms(1) show False by simp
    qed
    from gt assms(1) have "- 1022 < binade x" by simp
    from binade_lower [OF x0 this] have "pow2 (binade x) \<le> \<bar>x\<bar>" .
    moreover from gt have "pow2 (b + 1) \<le> pow2 (binade x)" by (intro pow2_mono) simp
    ultimately show False using u by linarith
  qed
qed

lemma binade_mono:
  assumes "\<bar>x\<bar> \<le> \<bar>y\<bar>"
  shows "binade x \<le> binade y"
proof (rule ccontr)
  assume "\<not> binade x \<le> binade y"
  then have gt: "binade y < binade x" by simp
  with binade_range [of x] binade_range [of y] have a: "binade y < 1023" "- 1022 < binade x"
    by simp_all
  have x0: "x \<noteq> 0"
  proof
    assume "x = 0"
    then have "binade x = - 1022" by (simp add: binade_def)
    with a show False by simp
  qed
  from binade_lower [OF x0 a(2)] have "pow2 (binade x) \<le> \<bar>x\<bar>" .
  moreover from binade_upper [OF a(1)] have "\<bar>y\<bar> < pow2 (binade y + 1)" .
  moreover from gt have "pow2 (binade y + 1) \<le> pow2 (binade x)" by (intro pow2_mono) simp
  ultimately show False using assms by linarith
qed

abbreviation quantum :: "real \<Rightarrow> real" where
  "quantum x \<equiv> pow2 (binade x - 52)"

lemma round64_le:
  assumes "x \<le> of_int n * quantum x"
  shows "round64 x \<le> of_int n * quantum x"
proof -
  from assms have "x / quantum x \<le> of_int n"
    by (simp add: pos_divide_le_eq)
  from rhe_mono [OF this] have "round_half_even (x / quantum x) \<le> n" by simp
  then have "of_int (round_half_even (x / quantum x)) * quantum x \<le> of_int n * quantum x"
    by simp
  then show ?thesis by (simp add: round64_def mult.commute)
qed

lemma round64_ge:
  assumes "of_int n * quantum x \<le> x"
  shows "of_int n * quantum x \<le> round64 x"
proof -
  from assms have "of_int n \<le> x / quantum x"
    by (simp add: pos_le_divide_eq)
  from rhe_mono [OF this] have "n \<le> round_half_even (x / quantum x)" by simp
  then have "of_int n * quantum x \<le> of_int (round_half_even (x / quantum x)) * quantum x"
    by simp
  then show ?thesis by (simp add: round64_def mult.commute)
qed

lemma pow2_split: "pow2 b = 4503599627370496 * pow2 (b - 52)"
  using pow2_add [of 52 "b - 52"] pow2_nat [of 52] by simp

lemma pow2_split': "pow2 (b + 1) = 9007199254740992 * pow2 (b - 52)"
  using pow2_add [of 53 "b - 52"] pow2_nat [of 53] by (simp add: add.commute)

text \<open>Rounding is monotone.\<close>

lemma round64_mono:
  assumes "x \<le> y"
  shows "round64 x \<le> round64 y"
proof (cases "binade x = binade y")
  case True
  have "x / quantum y \<le> y / quantum y"
    using assms by (intro divide_right_mono) simp_all
  from rhe_mono [OF this] show ?thesis
    by (simp add: round64_def True)
next
  case False
  consider "0 \<le> x" | "y \<le> 0" | "x < 0" "0 < y" by linarith
  then show ?thesis
  proof cases
    case 1
    with assms have "\<bar>x\<bar> \<le> \<bar>y\<bar>" by simp
    from binade_mono [OF this] False have lt: "binade x < binade y" by simp
    with binade_range [of x] binade_range [of y]
    have a: "binade x < 1023" "- 1022 < binade y" by simp_all
    from 1 assms lt have y0: "y \<noteq> 0"
      by (auto simp: binade_def split: if_splits)
    have "x \<le> of_int 9007199254740992 * quantum x"
      using binade_upper [OF a(1)] 1 pow2_split' [of "binade x"] by simp
    from round64_le [OF this] have ux: "round64 x \<le> pow2 (binade x + 1)"
      using pow2_split' [of "binade x"] by simp
    have "of_int 4503599627370496 * quantum y \<le> y"
      using binade_lower [OF y0 a(2)] 1 assms pow2_split [of "binade y"] by simp
    from round64_ge [OF this] have ly: "pow2 (binade y) \<le> round64 y"
      using pow2_split [of "binade y"] by simp
    from lt have "pow2 (binade x + 1) \<le> pow2 (binade y)" by (intro pow2_mono) simp
    with ux ly show ?thesis by linarith
  next
    case 2
    with assms have "\<bar>y\<bar> \<le> \<bar>x\<bar>" by simp
    from binade_mono [OF this] False have lt: "binade y < binade x" by simp
    with binade_range [of x] binade_range [of y]
    have a: "binade y < 1023" "- 1022 < binade x" by simp_all
    from 2 assms lt have x0: "x \<noteq> 0"
      by (auto simp: binade_def split: if_splits)
    have "of_int (- 9007199254740992) * quantum y \<le> y"
      using binade_upper [OF a(1)] 2 pow2_split' [of "binade y"] by simp
    from round64_ge [OF this] have ly: "- pow2 (binade y + 1) \<le> round64 y"
      using pow2_split' [of "binade y"] by simp
    have "x \<le> of_int (- 4503599627370496) * quantum x"
      using binade_lower [OF x0 a(2)] 2 assms pow2_split [of "binade x"] by simp
    from round64_le [OF this] have ux: "round64 x \<le> - pow2 (binade x)"
      using pow2_split [of "binade x"] by simp
    from lt have "pow2 (binade y + 1) \<le> pow2 (binade x)" by (intro pow2_mono) simp
    with ux ly show ?thesis by linarith
  next
    case 3
    from 3(1) have "x \<le> of_int 0 * quantum x" by simp
    from round64_le [OF this] have "round64 x \<le> 0" by simp
    moreover from 3(2) have "of_int 0 * quantum y \<le> y" by simp
    from round64_ge [OF this] have "0 \<le> round64 y" by simp
    ultimately show ?thesis by linarith
  qed
qed

lemma round64_eval:
  assumes "- 1022 \<le> b" "b \<le> 1023"
    and "- 1022 < b \<longrightarrow> pow2 b \<le> \<bar>x\<bar>"
    and "b < 1023 \<longrightarrow> \<bar>x\<bar> < pow2 (b + 1)"
  shows "round64 x = pow2 (b - 52) * of_int (round_half_even (x / pow2 (b - 52)))"
  using binade_eqI [OF assms] by (simp add: round64_def)

lemma round64_0 [simp]: "round64 0 = 0"
  using rhe_of_int [of 0] by (simp add: round64_def)

subsection \<open>Floats\<close>

lemma round64_val [simp]: "round64 (val d) = val d"
  using val [of d] by simp

lemma val_float_of:
  assumes "round64 r = c" "round64 c = c" "\<bar>c\<bar> < 2 ^ 1024"
  shows "val (float_of r) = c"
  using assms by (simp add: float_of_def Abs_double_inverse)

text \<open>
  Bounds on the float difference from bounds on the exact one: rounding is monotone and
  leaves a float alone.
\<close>

lemma float_sub_mono: "val a - val b \<le> val c - val d \<Longrightarrow> float_sub a b \<le> float_sub c d"
  by (simp add: float_sub_def round64_mono)

lemma float_sub_le: "val a - val b \<le> val u \<Longrightarrow> float_sub a b \<le> val u"
  using round64_mono [of "val a - val b" "val u"] by (simp add: float_sub_def)

lemma float_sub_ge: "val u \<le> val a - val b \<Longrightarrow> val u \<le> float_sub a b"
  using round64_mono [of "val u" "val a - val b"] by (simp add: float_sub_def)

lemma float_sub_gt_exact: "val w < float_sub a b \<Longrightarrow> val w < val a - val b"
  using float_sub_le [of a b w] by linarith

lemma float_sub_self [simp]: "float_sub a a = 0"
  by (simp add: float_sub_def)

text \<open>The floats written in the examples.\<close>

lemma val_0 [simp]: "val (float_of 0) = 0"
  by (rule val_float_of) simp_all

lemma val_1 [simp]: "val (float_of 1) = 1"
proof -
  have "round64 1 = 1"
    by (subst round64_eval [of 0]) (simp_all add: pow2_def round_half_even_def Let_def)
  then show ?thesis by (intro val_float_of) simp_all
qed

lemma val_2 [simp]: "val (float_of 2) = 2"
proof -
  have "round64 2 = 2"
    by (subst round64_eval [of 1]) (simp_all add: pow2_def round_half_even_def Let_def)
  then show ?thesis by (intro val_float_of) simp_all
qed

lemma val_half [simp]: "val (float_of (1/2)) = 1/2"
proof -
  have "round64 (1/2) = 1/2"
    by (subst round64_eval [of "- 1"]) (simp_all add: pow2_def round_half_even_def Let_def)
  then show ?thesis by (intro val_float_of) simp_all
qed

lemma val_3_2 [simp]: "val (float_of (3/2)) = 3/2"
proof -
  have "round64 (3/2) = 3/2"
    by (subst round64_eval [of 0]) (simp_all add: pow2_def round_half_even_def Let_def)
  then show ?thesis by (intro val_float_of) simp_all
qed

lemma val_0_1: "val (float_of (1/10)) = 3602879701896397 / 2 ^ 55"
proof (rule val_float_of)
  show "round64 (1/10) = 3602879701896397 / 2 ^ 55"
    by (subst round64_eval [of "- 4"]) (simp_all add: pow2_def round_half_even_def Let_def)
  show "round64 (3602879701896397 / 2 ^ 55) = 3602879701896397 / 2 ^ 55"
    by (subst round64_eval [of "- 4"]) (simp_all add: pow2_def round_half_even_def Let_def)
qed simp

lemma val_0_2: "val (float_of (1/5)) = 3602879701896397 / 2 ^ 54"
proof (rule val_float_of)
  show "round64 (1/5) = 3602879701896397 / 2 ^ 54"
    by (subst round64_eval [of "- 3"]) (simp_all add: pow2_def round_half_even_def Let_def)
  show "round64 (3602879701896397 / 2 ^ 54) = 3602879701896397 / 2 ^ 54"
    by (subst round64_eval [of "- 3"]) (simp_all add: pow2_def round_half_even_def Let_def)
qed simp

lemma val_1_05: "val (float_of (21/20)) = 4728779608739021 / 2 ^ 52"
proof (rule val_float_of)
  show "round64 (21/20) = 4728779608739021 / 2 ^ 52"
    by (subst round64_eval [of 0]) (simp_all add: pow2_def round_half_even_def Let_def)
  show "round64 (4728779608739021 / 2 ^ 52) = 4728779608739021 / 2 ^ 52"
    by (subst round64_eval [of 0]) (simp_all add: pow2_def round_half_even_def Let_def)
qed simp

lemma val_1_1: "val (float_of (11/10)) = 2476979795053773 / 2 ^ 51"
proof (rule val_float_of)
  show "round64 (11/10) = 2476979795053773 / 2 ^ 51"
    by (subst round64_eval [of 0]) (simp_all add: pow2_def round_half_even_def Let_def)
  show "round64 (2476979795053773 / 2 ^ 51) = 2476979795053773 / 2 ^ 51"
    by (subst round64_eval [of 0]) (simp_all add: pow2_def round_half_even_def Let_def)
qed simp

text \<open>
  In binary64, \<^verbatim>\<open>1.1 - 0.1\<close> is \<^verbatim>\<open>1.0\<close>: the exact difference of the two floats is
  \<open>1 + 3 / 2 ^ 55\<close>, and it rounds down.
\<close>

lemma exact_1_1_minus_0_1:
  "val (float_of (11/10)) - val (float_of (1/10)) = 1 + 3 / 2 ^ 55"
  by (simp add: val_0_1 val_1_1)

lemma float_sub_1_1_0_1: "float_sub (float_of (11/10)) (float_of (1/10)) = 1"
  unfolding float_sub_def exact_1_1_minus_0_1
  by (subst round64_eval [of 0]) (simp_all add: pow2_def round_half_even_def Let_def)

subsection \<open>The loop\<close>

lemma purge_loop_Nil: "purge_loop w now [] = (Inr (), [])"
  by (simp add: purge_loop.simps)

lemma purge_loop_Cons:
  "purge_loop w now (e # es) =
     (if float_sub now e > val w then purge_loop w now es else (Inr (), e # es))"
  by (subst purge_loop.simps) (simp add: deque_front_def popleft_def)

lemma purge_pops_Nil: "purge_pops w now [] = 0"
  by (simp add: purge_pops.simps)

lemma purge_pops_Cons:
  "purge_pops w now (e # es) =
     (if float_sub now e > val w then Suc (purge_pops w now es) else 0)"
  by (subst purge_pops.simps) (simp add: deque_front_def popleft_def)

lemma purge_loop_dropWhile:
  "purge_loop w now q = (Inr (), dropWhile (\<lambda>e. float_sub now e > val w) q)"
  by (induction q) (simp_all add: purge_loop_Nil purge_loop_Cons)

lemma purge_pops_takeWhile:
  "purge_pops w now q = length (takeWhile (\<lambda>e. float_sub now e > val w) q)"
  by (induction q) (simp_all add: purge_pops_Nil purge_pops_Cons)

lemma dispatch_unfold:
  "dispatch self now request call_next world =
     (let q = dropWhile (\<lambda>e. float_sub now e > val (window_seconds self)) (request_times self)
      in if int (length q) \<ge> max_requests self
         then (Inl (HTTPException 429 ''Rate limit exceeded''), self\<lparr>request_times := q\<rparr>, world)
         else (Inr (fst (call_next request world)), self\<lparr>request_times := q @ [now]\<rparr>,
               snd (call_next request world)))"
  by (simp add: dispatch_def purge_loop_dropWhile Let_def split: prod.splits)

lemma admit_unfold:
  "admit now self =
     (let q = dropWhile (\<lambda>e. float_sub now e > val (window_seconds self)) (request_times self)
      in if int (length q) \<ge> max_requests self
         then (REJECTED, self\<lparr>request_times := q\<rparr>)
         else (ADMITTED, self\<lparr>request_times := q @ [now]\<rparr>))"
  by (simp add: admit_def dispatch_unfold Let_def)

text \<open>
  C2. A call of \<open>admit\<close> does what the three steps of the specification say: the outcome
  and the log after the call are those of \<open>admit_spec\<close>, and the two settings are
  unchanged.
\<close>

theorem admit_refines_spec:
  "admit now self =
     (fst (admit_spec (max_requests self) (window_seconds self) now (request_times self)),
      self\<lparr>request_times :=
        snd (admit_spec (max_requests self) (window_seconds self) now (request_times self))\<rparr>)"
  by (simp add: admit_unfold admit_spec_def Let_def)

text \<open>
  C9. The loop never reads the front of an empty deque and never pops one: it ends without
  an exception, after at most as many removals as the log has entries, whatever the log
  and the timestamp are; so a call of \<open>admit\<close> returns ADMITTED or REJECTED and never
  fails with \<open>IndexError\<close>.
\<close>

theorem admit_total:
  "(\<exists>q'. purge_loop w now q = (Inr (), q') \<and> length q' + purge_pops w now q = length q)
   \<and> purge_pops w now q \<le> length q
   \<and> (fst (admit now self) = ADMITTED \<or> fst (admit now self) = REJECTED)"
proof -
  have "length (dropWhile (\<lambda>e. float_sub now e > val w) q)
          + length (takeWhile (\<lambda>e. float_sub now e > val w) q)
          = length q"
    by (metis add.commute length_append takeWhile_dropWhile_id)
  moreover have "length (takeWhile (\<lambda>e. float_sub now e > val w) q) \<le> length q"
    by (rule length_takeWhile_le)
  moreover have "fst (admit now self) = ADMITTED \<or> fst (admit now self) = REJECTED"
    by (simp add: admit_unfold Let_def)
  ultimately show ?thesis
    by (simp add: purge_loop_dropWhile purge_pops_takeWhile)
qed

subsection \<open>Sequences of calls\<close>

lemma admit_settings:
  "max_requests (snd (admit now self)) = max_requests self"
  "window_seconds (snd (admit now self)) = window_seconds self"
  by (simp_all add: admit_unfold Let_def)

lemma admit_all_Cons_fst:
  "fst (admit_all self (t # ts)) = fst (admit t self) # fst (admit_all (snd (admit t self)) ts)"
  by (simp split: prod.splits)

lemma admit_all_Cons_snd:
  "snd (admit_all self (t # ts)) = snd (admit_all (snd (admit t self)) ts)"
  by (simp split: prod.splits)

lemma admit_all_settings:
  "max_requests (snd (admit_all self ts)) = max_requests self
   \<and> window_seconds (snd (admit_all self ts)) = window_seconds self"
  by (induction ts arbitrary: self) (simp_all add: admit_settings admit_all_Cons_snd del: admit_all.simps(2))

lemma admit_all_snoc:
  "admit_all self (ts @ [t]) =
     (fst (admit_all self ts) @ [fst (admit t (snd (admit_all self ts)))],
      snd (admit t (snd (admit_all self ts))))"
  by (induction ts arbitrary: self) (simp_all split: prod.splits)

lemma admit_length:
  "int (length (request_times self)) \<le> max_requests self \<Longrightarrow>
   int (length (request_times (snd (admit now self)))) \<le> max_requests self"
proof -
  assume a: "int (length (request_times self)) \<le> max_requests self"
  have "length (dropWhile (\<lambda>e. float_sub now e > val (window_seconds self)) (request_times self))
          \<le> length (request_times self)"
    by (rule length_dropWhile_le)
  with a show ?thesis
    by (simp add: admit_unfold Let_def)
qed

lemma admit_all_length:
  "int (length (request_times self)) \<le> max_requests self \<Longrightarrow>
   int (length (request_times (snd (admit_all self ts)))) \<le> max_requests self"
proof (induction ts arbitrary: self)
  case Nil
  then show ?case by simp
next
  case (Cons t ts)
  have "int (length (request_times (snd (admit_all (snd (admit t self)) ts))))
          \<le> max_requests (snd (admit t self))"
    by (rule Cons.IH) (simp add: admit_settings admit_length Cons.prems)
  then show ?case
    by (simp add: admit_settings admit_all_Cons_snd del: admit_all.simps(2))
qed

lemma admitted_times_Cons:
  "admitted_times (r # rs) (t # ts) = (if r = ADMITTED then [t] else []) @ admitted_times rs ts"
  by (simp add: admitted_times_def)

text \<open>
  What a call removes from the log is older than the window in exact arithmetic too:
  \<open>window_seconds\<close> is a float, and rounding is monotone.
\<close>

lemma admit_log_split:
  "\<exists>D. request_times self @ (if fst (admit now self) = ADMITTED then [now] else [])
          = D @ request_times (snd (admit now self))
       \<and> (\<forall>e\<in>set D. val now - val e > val (window_seconds self))"
proof -
  let ?P = "\<lambda>e. float_sub now e > val (window_seconds self)"
  let ?q = "request_times self"
  have "?q = takeWhile ?P ?q @ dropWhile ?P ?q" by simp
  moreover have "\<forall>e\<in>set (takeWhile ?P ?q). val now - val e > val (window_seconds self)"
    by (auto dest: set_takeWhileD float_sub_gt_exact)
  moreover have "request_times (snd (admit now self))
      = dropWhile ?P ?q @ (if fst (admit now self) = ADMITTED then [now] else [])"
    by (simp add: admit_unfold Let_def)
  ultimately show ?thesis
    by (metis append.assoc)
qed

lemma admit_all_history:
  "sorted (map val ts) \<Longrightarrow> ts \<noteq> [] \<Longrightarrow>
   \<exists>P. request_times self @ admitted_times (fst (admit_all self ts)) ts
          = P @ request_times (snd (admit_all self ts))
       \<and> (\<forall>e\<in>set P. val (last ts) - val e > val (window_seconds self))"
proof (induction ts arbitrary: self)
  case Nil
  then show ?case by simp
next
  case (Cons t ts)
  obtain r self1 where a: "admit t self = (r, self1)" by (cases "admit t self")
  obtain rs self2 where b: "admit_all self1 ts = (rs, self2)" by (cases "admit_all self1 ts")
  from admit_log_split [of self t] a obtain D where
    D: "request_times self @ (if r = ADMITTED then [t] else []) = D @ request_times self1"
       "\<forall>e\<in>set D. val t - val e > val (window_seconds self)"
    by auto
  have w1: "window_seconds self1 = window_seconds self"
    using admit_settings(2) [of t self] a by simp
  show ?case
  proof (cases "ts = []")
    case True
    with a b D show ?thesis
      by (auto simp: admitted_times_Cons admitted_times_def)
  next
    case False
    from Cons.prems have s: "sorted (map val ts)" and le: "val t \<le> val (last ts)"
      using False by auto
    from Cons.IH [OF s False, of self1] b w1 obtain P where
      P: "request_times self1 @ admitted_times rs ts = P @ request_times self2"
         "\<forall>e\<in>set P. val (last ts) - val e > val (window_seconds self)"
      by auto
    have e1: "fst (admit_all self (t # ts)) = r # rs" "snd (admit_all self (t # ts)) = self2"
      using a b by simp_all
    have e2: "last (t # ts) = last ts" using False by simp
    have "request_times self @ admitted_times (r # rs) (t # ts)
            = (request_times self @ (if r = ADMITTED then [t] else [])) @ admitted_times rs ts"
      by (simp add: admitted_times_Cons)
    also have "\<dots> = (D @ request_times self1) @ admitted_times rs ts"
      by (simp only: D(1))
    also have "\<dots> = (D @ P) @ request_times self2"
      using P(1) by simp
    finally have main: "request_times self @ admitted_times (r # rs) (t # ts)
            = (D @ P) @ request_times self2" .
    have old: "\<forall>e\<in>set (D @ P). val (last ts) - val e > val (window_seconds self)"
      using D(2) P(2) le by auto
    show ?thesis
      unfolding e1 e2 using main old by (intro exI [of _ "D @ P"] conjI)
  qed
qed

lemma sorted_run_bound:
  assumes "sorted (map val ts)" "ts \<noteq> []" "0 \<le> m"
  shows "int (length (request_times (snd (admit_all (init m w) ts)))) \<le> m
       \<and> int (length (filter (\<lambda>t. val (last ts) - val w < val t \<and> val t \<le> val (last ts))
                        (admitted_times (fst (admit_all (init m w) ts)) ts))) \<le> m"
proof -
  let ?self = "init m w"
  let ?log = "request_times (snd (admit_all ?self ts))"
  have len: "int (length ?log) \<le> m"
    using admit_all_length [of ?self ts] assms(3) by (simp add: init_def)
  from admit_all_history [OF assms(1,2), of ?self] obtain P where
    P: "admitted_times (fst (admit_all ?self ts)) ts = P @ ?log"
       "\<forall>e\<in>set P. val (last ts) - val e > val w"
    by (auto simp: init_def)
  have "filter (\<lambda>t. val (last ts) - val w < val t \<and> val t \<le> val (last ts)) P = []"
    using P(2) by (auto simp: filter_empty_conv)
  then have "length (filter (\<lambda>t. val (last ts) - val w < val t \<and> val t \<le> val (last ts))
               (admitted_times (fst (admit_all ?self ts)) ts))
             \<le> length ?log"
    by (simp add: P(1))
  with len show ?thesis by simp
qed

text \<open>
  C1. Calls arrive with non-decreasing timestamps on a limiter built by the constructor
  with \<open>max_requests\<close> not negative. After every non-empty prefix of the calls (the first
  \<open>k\<close> of them, the current call being the \<open>k\<close>-th, at time \<open>ts ! (k - 1)\<close>), the log
  holds at most \<open>max_requests\<close> entries, and at most \<open>max_requests\<close> of the admitted calls
  have a timestamp in the half-open window that ends at the current call. The window is
  the exact one, on the values of the floats.
\<close>

theorem window_bound:
  assumes "sorted (map val ts)" "0 \<le> m" "0 < k" "k \<le> length ts"
  shows "int (length (request_times (snd (admit_all (init m w) (take k ts))))) \<le> m
       \<and> int (length (filter (\<lambda>t. val (ts ! (k - 1)) - val w < val t \<and> val t \<le> val (ts ! (k - 1)))
                        (admitted_times (fst (admit_all (init m w) (take k ts))) (take k ts)))) \<le> m"
proof -
  have "sorted (take k (map val ts))" using assms(1) by (rule sorted_wrt_take)
  then have s: "sorted (map val (take k ts))" by (simp add: take_map)
  have n: "take k ts \<noteq> []" using assms(3,4) by auto
  have l: "last (take k ts) = ts ! (k - 1)"
    using assms(3,4) n by (simp add: last_conv_nth)
  from sorted_run_bound [OF s n assms(2), of w] l show ?thesis by simp
qed

theorem window_bound_witness:
  "sorted (map val [float_of 0, float_of (1/2), float_of (1/2)]) \<and> (0::int) \<le> 2 \<and> (0::nat) < 3
   \<and> 3 \<le> length [float_of 0, float_of (1/2), float_of (1/2)]
   \<and> int (length (request_times (snd (admit_all (init 2 (float_of 1))
              (take 3 [float_of 0, float_of (1/2), float_of (1/2)]))))) \<le> 2
   \<and> int (length (filter
        (\<lambda>t. val ([float_of 0, float_of (1/2), float_of (1/2)] ! (3 - 1)) - val (float_of 1) < val t
             \<and> val t \<le> val ([float_of 0, float_of (1/2), float_of (1/2)] ! (3 - 1)))
        (admitted_times (fst (admit_all (init 2 (float_of 1))
              (take 3 [float_of 0, float_of (1/2), float_of (1/2)])))
           (take 3 [float_of 0, float_of (1/2), float_of (1/2)])))) \<le> 2"
  using window_bound [of "[float_of 0, float_of (1/2), float_of (1/2)]" 2 3 "float_of 1"]
  by simp

text \<open>
  C7. With \<open>max_requests = 2\<close> and \<open>window_seconds = 1.0\<close>, the calls at 0.0, 0.1, 0.2, 1.05
  and 1.05 are admitted, admitted, rejected, admitted, rejected, and the log is
  \<open>[0.1, 1.05]\<close> after the last one. The timestamps are the floats that Python reads
  these literals as.
\<close>

theorem recovery_after_window:
  "admit_all (init 2 (float_of 1.0))
       [float_of 0.0, float_of 0.1, float_of 0.2, float_of 1.05, float_of 1.05] =
     ([ADMITTED, ADMITTED, REJECTED, ADMITTED, REJECTED],
      \<lparr>max_requests = 2, window_seconds = float_of 1.0,
       request_times = [float_of 0.1, float_of 1.05]\<rparr>)"
proof -
  have a: "(1 < float_sub (float_of (1/10)) (float_of 0)) = False"
    using float_sub_le [of "float_of (1/10)" "float_of 0" "float_of 1"]
    by (simp add: val_0_1)
  have b: "(1 < float_sub (float_of (1/5)) (float_of 0)) = False"
    using float_sub_le [of "float_of (1/5)" "float_of 0" "float_of 1"]
    by (simp add: val_0_2)
  have c: "(1 < float_sub (float_of (21/20)) (float_of 0)) = True"
    using float_sub_ge [of "float_of (21/20)" "float_of (21/20)" "float_of 0"]
    by (simp add: val_1_05)
  have d: "(1 < float_sub (float_of (21/20)) (float_of (1/10))) = False"
    using float_sub_le [of "float_of (21/20)" "float_of (1/10)" "float_of 1"]
    by (simp add: val_1_05 val_0_1)
  show ?thesis
    by (simp add: admit_unfold init_def Let_def a b c d)
qed

subsection \<open>The purge and the window\<close>

lemma round64_1: "round64 1 = 1"
  using round64_val [of "float_of 1"] by simp

lemma dropWhile_sorted_fresh:
  "sorted (map val q) \<Longrightarrow>
   \<forall>e\<in>set (dropWhile (\<lambda>e. float_sub now e > val w) q). float_sub now e \<le> val w"
proof (induction q)
  case Nil
  then show ?case by simp
next
  case (Cons a q)
  show ?case
  proof (cases "float_sub now a > val w")
    case True
    with Cons show ?thesis by simp
  next
    case False
    from Cons.prems have "\<forall>x\<in>set q. val a \<le> val x" by simp
    then have "\<forall>x\<in>set q. float_sub now x \<le> float_sub now a"
      by (auto intro: float_sub_mono)
    with False show ?thesis by fastforce
  qed
qed

lemma filter_dropWhile_kept:
  "(\<And>e. B e \<Longrightarrow> \<not> P e) \<Longrightarrow> filter B (dropWhile P q) = filter B q"
  by (induction q) auto

lemma boundary_kept:
  "filter (\<lambda>e. float_sub now e = val w) (dropWhile (\<lambda>e. float_sub now e > val w) q)
     = filter (\<lambda>e. float_sub now e = val w) q"
  by (rule filter_dropWhile_kept) simp

lemma dropWhile_keeps:
  "e \<in> set q \<Longrightarrow> \<not> P e \<Longrightarrow> e \<in> set (dropWhile P q)"
  by (induction q) auto

text \<open>Non-decreasing clock readings keep the log ordered oldest first.\<close>

lemma admit_all_sorted:
  "sorted (map val (request_times self @ ts)) \<Longrightarrow>
   sorted (map val (request_times (snd (admit_all self ts))))"
proof (induction ts arbitrary: self)
  case Nil
  then show ?case by simp
next
  case (Cons t ts)
  let ?P = "\<lambda>e. float_sub t e > val (window_seconds self)"
  let ?q = "request_times self"
  have split: "?q = takeWhile ?P ?q @ dropWhile ?P ?q" by simp
  from Cons.prems have "sorted (map val ((takeWhile ?P ?q @ dropWhile ?P ?q) @ t # ts))"
    by simp
  then have keep: "sorted (map val (dropWhile ?P ?q @ t # ts))"
    by (simp add: sorted_append del: takeWhile_dropWhile_id)
  then have drop: "sorted (map val (dropWhile ?P ?q @ ts))"
    by (auto simp: sorted_append)
  have "sorted (map val (request_times (snd (admit t self)) @ ts))"
    using keep drop by (simp add: admit_unfold Let_def)
  from Cons.IH [OF this] show ?case
    by (simp add: admit_all_Cons_snd del: admit_all.simps(2))
qed

lemma admit_fresh:
  assumes "sorted (map val (request_times self))" "0 \<le> val (window_seconds self)"
  shows "\<forall>e\<in>set (request_times (snd (admit now self))).
           float_sub now e \<le> val (window_seconds self)"
  using dropWhile_sorted_fresh [OF assms(1), where now = now and w = "window_seconds self"]
    assms(2)
  by (auto simp: admit_unfold Let_def)

text \<open>
  C3, as the claim states it. From the empty log, with \<open>max_requests = 1\<close> and
  \<open>window_seconds = 1.0\<close>, the call at \<open>0.1\<close> is admitted and the call at \<open>1.1\<close> is
  rejected and leaves the entry \<open>0.1\<close> in the log, although \<open>1.1 - 0.1\<close> taken exactly on
  the two floats is more than \<open>window_seconds\<close>: the loop compares the float difference,
  which is \<open>1.0\<close>.
\<close>

theorem purge_strict_counterexample:
  "admit_all (init 1 (float_of 1.0)) [float_of 0.1, float_of 1.1] =
     ([ADMITTED, REJECTED],
      \<lparr>max_requests = 1, window_seconds = float_of 1.0, request_times = [float_of 0.1]\<rparr>)
   \<and> \<not> val (float_of 1.1) - val (float_of 0.1) \<le> val (float_of 1.0)"
  by (simp add: admit_unfold init_def Let_def float_sub_1_1_0_1 exact_1_1_minus_0_1)

text \<open>
  C3, amended. The purge compares with \<open>>\<close>, on the float difference. Calls arrive with
  non-decreasing timestamps on a limiter built by the constructor with \<open>window_seconds\<close>
  not negative: after every non-empty prefix of the calls, every entry \<open>e\<close> of the log has
  the float difference \<open>now - e\<close> at most \<open>window_seconds\<close>, \<open>now\<close> being the timestamp of
  the current call. For any log and timestamp, the entries whose float difference equals
  \<open>window_seconds\<close> are all in the deque whose length the call tests and in the log after
  the call, and they count: when there are \<open>max_requests\<close> of them or more, the call is
  rejected.
\<close>

theorem purge_strict_computed:
  "(sorted (map val ts) \<and> 0 \<le> val w \<and> 0 < k \<and> k \<le> length ts \<longrightarrow>
      (\<forall>e\<in>set (request_times (snd (admit_all (init m w) (take k ts)))).
          float_sub (ts ! (k - 1)) e \<le> val w))
   \<and> filter (\<lambda>e. float_sub now e = val (window_seconds self))
        (snd (purge_loop (window_seconds self) now (request_times self)))
       = filter (\<lambda>e. float_sub now e = val (window_seconds self)) (request_times self)
   \<and> (\<forall>e\<in>set (request_times self). float_sub now e = val (window_seconds self) \<longrightarrow>
         e \<in> set (request_times (snd (admit now self))))
   \<and> (max_requests self
         \<le> int (length (filter (\<lambda>e. float_sub now e = val (window_seconds self))
                          (request_times self))) \<longrightarrow>
       fst (admit now self) = REJECTED)"
proof (intro conjI impI ballI)
  fix e
  assume a: "sorted (map val ts) \<and> 0 \<le> val w \<and> 0 < k \<and> k \<le> length ts"
    and e: "e \<in> set (request_times (snd (admit_all (init m w) (take k ts))))"
  let ?before = "snd (admit_all (init m w) (take (k - 1) ts))"
  from a have tk: "take k ts = take (k - 1) ts @ [ts ! (k - 1)]"
    by (metis Suc_pred' Suc_le_lessD take_Suc_conv_app_nth)
  have "sorted (take (k - 1) (map val ts))"
    using a by (intro sorted_wrt_take) simp
  then have "sorted (map val (request_times (init m w) @ take (k - 1) ts))"
    by (simp add: init_def take_map)
  from admit_all_sorted [OF this] have s: "sorted (map val (request_times ?before))" .
  have w: "window_seconds ?before = w"
    using admit_all_settings [of "init m w" "take (k - 1) ts"] by (simp add: init_def)
  from admit_fresh [OF s, of "ts ! (k - 1)"] a w
  have "\<forall>e\<in>set (request_times (snd (admit (ts ! (k - 1)) ?before))).
          float_sub (ts ! (k - 1)) e \<le> val w"
    by simp
  with e show "float_sub (ts ! (k - 1)) e \<le> val w"
    by (simp add: tk admit_all_snoc)
next
  show "filter (\<lambda>e. float_sub now e = val (window_seconds self))
        (snd (purge_loop (window_seconds self) now (request_times self)))
       = filter (\<lambda>e. float_sub now e = val (window_seconds self)) (request_times self)"
    by (simp add: purge_loop_dropWhile boundary_kept)
next
  fix e
  assume "e \<in> set (request_times self)" "float_sub now e = val (window_seconds self)"
  then have "e \<in> set (dropWhile (\<lambda>e. float_sub now e > val (window_seconds self))
                       (request_times self))"
    by (intro dropWhile_keeps) simp_all
  then show "e \<in> set (request_times (snd (admit now self)))"
    by (simp add: admit_unfold Let_def)
next
  let ?B = "\<lambda>e. float_sub now e = val (window_seconds self)"
  let ?q = "dropWhile (\<lambda>e. float_sub now e > val (window_seconds self)) (request_times self)"
  assume full: "max_requests self \<le> int (length (filter ?B (request_times self)))"
  have "filter ?B ?q = filter ?B (request_times self)"
    by (rule boundary_kept)
  then have "length (filter ?B (request_times self)) \<le> length ?q"
    by (metis length_filter_le)
  with full show "fst (admit now self) = REJECTED"
    by (simp add: admit_unfold Let_def)
qed

theorem purge_strict_computed_witness:
  "sorted (map val [float_of 0, float_of 1, float_of 2]) \<and> 0 \<le> val (float_of 1)
   \<and> (0::nat) < 3 \<and> 3 \<le> length [float_of 0, float_of 1, float_of 2]
   \<and> admit_all (init 2 (float_of 1)) (take 3 [float_of 0, float_of 1, float_of 2])
       = ([ADMITTED, ADMITTED, ADMITTED],
          \<lparr>max_requests = 2, window_seconds = float_of 1,
           request_times = [float_of 1, float_of 2]\<rparr>)
   \<and> float_sub ([float_of 0, float_of 1, float_of 2] ! (3 - 1)) (float_of 1) \<le> val (float_of 1)
   \<and> float_sub ([float_of 0, float_of 1, float_of 2] ! (3 - 1)) (float_of 2) \<le> val (float_of 1)
   \<and> float_sub (float_of 2) (float_of 1) = val (float_of 1)
   \<and> (1::int) \<le> int (length (filter (\<lambda>e. float_sub (float_of 2) e = val (float_of 1))
                                 [float_of 1]))
   \<and> admit (float_of 2) \<lparr>max_requests = 1, window_seconds = float_of 1,
                          request_times = [float_of 1]\<rparr>
       = (REJECTED, \<lparr>max_requests = 1, window_seconds = float_of 1,
                     request_times = [float_of 1]\<rparr>)"
proof -
  have a: "float_sub (float_of 1) (float_of 0) = 1"
    by (simp add: float_sub_def round64_1)
  have b: "(1 < float_sub (float_of 2) (float_of 0)) = True"
    using float_sub_ge [of "float_of 2" "float_of 2" "float_of 0"] by simp
  have c: "float_sub (float_of 2) (float_of 1) = 1"
    by (simp add: float_sub_def round64_1)
  show ?thesis
    using purge_strict_computed
        [where ts = "[float_of 0, float_of 1, float_of 2]" and w = "float_of 1" and k = 3
           and m = 2]
      purge_strict_computed
        [where now = "float_of 2"
           and self = "\<lparr>max_requests = 1, window_seconds = float_of 1,
                        request_times = [float_of 1]\<rparr>"]
    by (simp add: admit_unfold init_def Let_def a b c)
qed

lemma sorted_le_last: "sorted (map val q) \<Longrightarrow> e \<in> set q \<Longrightarrow> val e \<le> val (last q)"
  by (induction q) auto

text \<open>
  C8, as the claim states it. The log \<open>[0.1]\<close> is ordered, \<open>max_requests\<close> is 1, and at
  \<open>now = 1.1\<close> the exact difference of \<open>now\<close> and the newest entry is more than
  \<open>window_seconds = 1.0\<close>; the call is rejected and the log is unchanged.
\<close>

theorem purge_all_counterexample:
  "sorted (map val [float_of 0.1])
   \<and> val (float_of 1.1) - val (last [float_of 0.1]) > val (float_of 1.0)
   \<and> (1::int) \<le> 1
   \<and> admit (float_of 1.1)
        \<lparr>max_requests = 1, window_seconds = float_of 1.0, request_times = [float_of 0.1]\<rparr>
       = (REJECTED,
          \<lparr>max_requests = 1, window_seconds = float_of 1.0, request_times = [float_of 0.1]\<rparr>)"
  by (simp add: admit_unfold Let_def float_sub_1_1_0_1 exact_1_1_minus_0_1)

text \<open>
  C8, amended. When the log is non-empty and ordered oldest first, the float difference of
  \<open>now\<close> and its newest entry is more than \<open>window_seconds\<close>, and \<open>max_requests\<close> is at
  least 1, the call removes every entry (one \<^verbatim>\<open>popleft\<close> for each), is admitted, and
  leaves the log \<open>[now]\<close>.
\<close>

theorem purge_all_when_newest_expired:
  assumes "sorted (map val (request_times self))"
    and "request_times self \<noteq> []"
    and "float_sub now (last (request_times self)) > val (window_seconds self)"
    and "1 \<le> max_requests self"
  shows "snd (purge_loop (window_seconds self) now (request_times self)) = []
       \<and> purge_pops (window_seconds self) now (request_times self) = length (request_times self)
       \<and> admit now self = (ADMITTED, self\<lparr>request_times := [now]\<rparr>)"
proof -
  let ?P = "\<lambda>e. float_sub now e > val (window_seconds self)"
  have "\<forall>e\<in>set (request_times self). val e \<le> val (last (request_times self))"
    using assms(1) by (auto intro: sorted_le_last)
  then have "\<forall>e\<in>set (request_times self).
               float_sub now (last (request_times self)) \<le> float_sub now e"
    by (auto intro: float_sub_mono)
  with assms(3) have all: "\<forall>e\<in>set (request_times self). ?P e"
    by fastforce
  then have d: "dropWhile ?P (request_times self) = []"
    by simp
  from all have t: "takeWhile ?P (request_times self) = request_times self"
    by (simp add: takeWhile_eq_all_conv)
  have p: "snd (purge_loop (window_seconds self) now (request_times self)) = []"
    by (simp only: purge_loop_dropWhile d snd_conv)
  have n: "purge_pops (window_seconds self) now (request_times self)
             = length (request_times self)"
    by (simp only: purge_pops_takeWhile t)
  have "admit now self = (ADMITTED, self\<lparr>request_times := [now]\<rparr>)"
    unfolding admit_unfold d Let_def using assms(4) by simp
  with p n show ?thesis by simp
qed

theorem purge_all_when_newest_expired_witness:
  "sorted (map val (request_times
       (create_app_limiter\<lparr>request_times := [float_of 0, float_of 0, float_of (1/2)]\<rparr>)))
   \<and> request_times
       (create_app_limiter\<lparr>request_times := [float_of 0, float_of 0, float_of (1/2)]\<rparr>) \<noteq> []
   \<and> float_sub (float_of 2) (last (request_times
       (create_app_limiter\<lparr>request_times := [float_of 0, float_of 0, float_of (1/2)]\<rparr>)))
        > val (window_seconds
       (create_app_limiter\<lparr>request_times := [float_of 0, float_of 0, float_of (1/2)]\<rparr>))
   \<and> 1 \<le> max_requests
       (create_app_limiter\<lparr>request_times := [float_of 0, float_of 0, float_of (1/2)]\<rparr>)
   \<and> admit (float_of 2)
       (create_app_limiter\<lparr>request_times := [float_of 0, float_of 0, float_of (1/2)]\<rparr>)
       = (ADMITTED, create_app_limiter\<lparr>request_times := [float_of 2]\<rparr>)"
proof -
  have a: "(1 < float_sub (float_of 2) (float_of (1/2))) = True"
    using float_sub_ge [of "float_of (3/2)" "float_of 2" "float_of (1/2)"] by simp
  show ?thesis
    using purge_all_when_newest_expired
        [of "create_app_limiter\<lparr>request_times := [float_of 0, float_of 0, float_of (1/2)]\<rparr>"
            "float_of 2"]
    by (simp add: create_app_limiter_def init_def a)
qed

subsection \<open>Rejection\<close>

lemma admit_head_fresh:
  assumes "0 \<le> val (window_seconds self)"
    and "request_times (snd (admit now self)) = e # es"
  shows "float_sub now e \<le> val (window_seconds self)"
proof -
  let ?P = "\<lambda>e. float_sub now e > val (window_seconds self)"
  let ?q = "dropWhile ?P (request_times self)"
  show ?thesis
  proof (cases ?q)
    case Nil
    with assms show ?thesis
      by (simp add: admit_unfold Let_def split: if_splits)
  next
    case (Cons x xs)
    then have "\<not> ?P x"
      by (metis dropWhile_eq_Cons_conv)
    moreover from Cons assms(2) have "e = x"
      by (simp add: admit_unfold Let_def split: if_splits)
    ultimately show ?thesis by simp
  qed
qed

lemma admit_again_rejected:
  assumes "0 \<le> val (window_seconds self)"
    and "int (length (request_times (snd (admit now self)))) \<ge> max_requests self"
    and "val t \<le> val now"
  shows "admit t (snd (admit now self)) = (REJECTED, snd (admit now self))"
proof -
  let ?s = "snd (admit now self)"
  have w: "window_seconds ?s = window_seconds self" and m: "max_requests ?s = max_requests self"
    by (simp_all add: admit_settings)
  have keep: "dropWhile (\<lambda>e. float_sub t e > val (window_seconds self)) (request_times ?s)
                = request_times ?s"
  proof (cases "request_times ?s")
    case Nil
    then show ?thesis by simp
  next
    case (Cons e es)
    from assms(3) have "float_sub t e \<le> float_sub now e"
      by (intro float_sub_mono) simp
    with admit_head_fresh [OF assms(1) Cons]
    have "\<not> float_sub t e > val (window_seconds self)"
      by simp
    with Cons show ?thesis by simp
  qed
  show ?thesis
    unfolding admit_unfold [of t ?s] w m keep Let_def using assms(2) by simp
qed

lemma admit_all_rejected:
  "\<forall>t\<in>set ts. admit t s = (REJECTED, s) \<Longrightarrow>
   admit_all s ts = (replicate (length ts) REJECTED, s)"
  by (induction ts) simp_all

text \<open>
  C5. A rejected call changes the log by the purge only. When the deque left by the purge
  is full, the call is rejected and the log is that deque, nothing appended; the log after
  a rejected call is the deque left by the purge. When \<open>window_seconds\<close> is not negative and
  the log is full after a call at \<open>now\<close>, further calls with timestamps not after \<open>now\<close> are
  all rejected and leave the limiter as it is.
\<close>

theorem rejection_idempotent:
  "(int (length (snd (purge_loop (window_seconds self) now (request_times self))))
        \<ge> max_requests self \<longrightarrow>
      admit now self =
        (REJECTED,
         self\<lparr>request_times := snd (purge_loop (window_seconds self) now (request_times self))\<rparr>))
   \<and> (fst (admit now self) = REJECTED \<longrightarrow>
        request_times (snd (admit now self))
          = snd (purge_loop (window_seconds self) now (request_times self)))
   \<and> (0 \<le> val (window_seconds self)
        \<and> int (length (request_times (snd (admit now self)))) \<ge> max_requests self
        \<and> (\<forall>t\<in>set ts. val t \<le> val now) \<longrightarrow>
        admit_all (snd (admit now self)) ts
          = (replicate (length ts) REJECTED, snd (admit now self)))"
proof (intro conjI impI)
  assume "int (length (snd (purge_loop (window_seconds self) now (request_times self))))
            \<ge> max_requests self"
  then show "admit now self =
        (REJECTED,
         self\<lparr>request_times := snd (purge_loop (window_seconds self) now (request_times self))\<rparr>)"
    by (simp add: admit_unfold purge_loop_dropWhile Let_def)
next
  assume "fst (admit now self) = REJECTED"
  then show "request_times (snd (admit now self))
          = snd (purge_loop (window_seconds self) now (request_times self))"
    by (simp add: admit_unfold purge_loop_dropWhile Let_def split: if_splits)
next
  assume a: "0 \<le> val (window_seconds self)
        \<and> int (length (request_times (snd (admit now self)))) \<ge> max_requests self
        \<and> (\<forall>t\<in>set ts. val t \<le> val now)"
  then have "\<forall>t\<in>set ts. admit t (snd (admit now self)) = (REJECTED, snd (admit now self))"
    by (auto intro: admit_again_rejected)
  then show "admit_all (snd (admit now self)) ts
          = (replicate (length ts) REJECTED, snd (admit now self))"
    by (rule admit_all_rejected)
qed

theorem rejection_idempotent_witness:
  "int (length (snd (purge_loop (float_of 1) (float_of (1/2)) [float_of 0, float_of (1/2)]))) \<ge> 2
   \<and> admit (float_of (1/2))
        \<lparr>max_requests = 2, window_seconds = float_of 1,
         request_times = [float_of 0, float_of (1/2)]\<rparr>
       = (REJECTED, \<lparr>max_requests = 2, window_seconds = float_of 1,
                     request_times = [float_of 0, float_of (1/2)]\<rparr>)
   \<and> 0 \<le> val (float_of 1)
   \<and> val (float_of (1/2)) \<le> val (float_of (1/2)) \<and> val (float_of 0) \<le> val (float_of (1/2))
   \<and> admit_all \<lparr>max_requests = 2, window_seconds = float_of 1,
                 request_times = [float_of 0, float_of (1/2)]\<rparr>
         [float_of (1/2), float_of (1/2), float_of 0]
       = ([REJECTED, REJECTED, REJECTED],
          \<lparr>max_requests = 2, window_seconds = float_of 1,
           request_times = [float_of 0, float_of (1/2)]\<rparr>)"
proof -
  have a: "(1 < float_sub (float_of (1/2)) (float_of 0)) = False"
    using float_sub_le [of "float_of (1/2)" "float_of 0" "float_of 1"] by simp
  show ?thesis
    using rejection_idempotent
      [of "\<lparr>max_requests = 2, window_seconds = float_of 1,
            request_times = [float_of 0, float_of (1/2)]\<rparr>" "float_of (1/2)"
          "[float_of (1/2), float_of (1/2), float_of 0]"]
    by (simp add: purge_loop_dropWhile admit_unfold Let_def a)
qed

subsection \<open>The rest of the application\<close>

text \<open>
  What \<open>dispatch\<close> does by the admission decision. When it is REJECTED, \<open>dispatch\<close>
  raises \<^verbatim>\<open>HTTPException\<close> with status code 429, the state outside the limiter is
  unchanged and the result does not depend on \<open>call_next\<close>: the handler is not called. When
  it is ADMITTED, \<open>dispatch\<close> returns the response of \<open>call_next\<close> on the request and the
  outside state is the one \<open>call_next\<close> leaves.
\<close>

lemma dispatch_by_decision:
  "(fst (admit now self) = REJECTED \<longrightarrow>
      dispatch self now request call_next world
        = (Inl (HTTPException 429 ''Rate limit exceeded''), snd (admit now self), world))
   \<and> (fst (admit now self) = ADMITTED \<longrightarrow>
      dispatch self now request call_next world
        = (Inr (fst (call_next request world)), snd (admit now self),
           snd (call_next request world)))"
  by (simp add: admit_unfold dispatch_unfold Let_def)

text \<open>
  C6. The limiter of \<^verbatim>\<open>create_app\<close> holds ten entries at \<open>0.0\<close> and an eleventh request
  arrives at \<open>0.0\<close>. \<open>dispatch\<close> returns no response: it raises \<^verbatim>\<open>HTTPException\<close> with
  \<^verbatim>\<open>status_code=429\<close>, without calling \<open>call_next\<close> and without changing the state
  outside the limiter. The request is answered with status 429 only if a layer outside
  \<open>dispatch\<close> turns this exception into such a response; \<open>dispatch\<close> builds none.
\<close>

theorem rejected_request_raises:
  "dispatch (create_app_limiter\<lparr>request_times := replicate 10 (float_of 0.0)\<rparr>) (float_of 0.0)
       ''GET /health'' (\<lambda>request served. (''ok'', Suc served)) (0::nat)
     = (Inl (HTTPException 429 ''Rate limit exceeded''),
        create_app_limiter\<lparr>request_times := replicate 10 (float_of 0.0)\<rparr>, 0)"
  by (simp add: dispatch_unfold create_app_limiter_def init_def Let_def numeral_eq_Suc)

text \<open>
  C10. The admission decision and the limiter after a call are determined by the log, the
  two settings and the timestamp: two calls that agree on these return the same outcome and
  leave the same limiter, whatever the request, the handler and the outside state of each
  are.
\<close>

theorem admission_deterministic:
  assumes "request_times a = request_times b"
    and "max_requests a = max_requests b"
    and "window_seconds a = window_seconds b"
  shows "map_sum id (\<lambda>_. ()) (fst (dispatch a now request1 call_next1 world1))
           = map_sum id (\<lambda>_. ()) (fst (dispatch b now request2 call_next2 world2))
       \<and> fst (snd (dispatch a now request1 call_next1 world1))
           = fst (snd (dispatch b now request2 call_next2 world2))
       \<and> admit now a = admit now b"
proof -
  from assms have "a = b" by simp
  then show ?thesis
    by (simp add: dispatch_unfold Let_def)
qed

theorem admission_deterministic_witness:
  "map_sum id (\<lambda>_. ())
       (fst (dispatch (init 1 (float_of 1)) (float_of 0) ''a'' (\<lambda>r w. (True, Suc w)) (0::nat)))
     = map_sum id (\<lambda>_. ())
       (fst (dispatch (init 1 (float_of 1)) (float_of 0) ''b'' (\<lambda>r w. (r, w)) False))
   \<and> fst (snd (dispatch (init 1 (float_of 1)) (float_of 0) ''a'' (\<lambda>r w. (True, Suc w)) (0::nat)))
     = fst (snd (dispatch (init 1 (float_of 1)) (float_of 0) ''b'' (\<lambda>r w. (r, w)) False))
   \<and> fst (snd (dispatch (init 1 (float_of 1)) (float_of 0) ''a'' (\<lambda>r w. (True, Suc w)) (0::nat)))
     = \<lparr>max_requests = 1, window_seconds = float_of 1, request_times = [float_of 0]\<rparr>"
  using admission_deterministic
      [of "init 1 (float_of 1)" "init 1 (float_of 1)" "float_of 0" "''a''"
          "\<lambda>r w. (True, Suc w)" "0::nat" "''b''" "\<lambda>r w. (r, w)" False]
  by (simp add: dispatch_unfold init_def Let_def)

end
